theory Spec2Isabelle
  imports Main "HOL-Library.Sublist"
begin

section \<open>The entity library of \<open>entity-insertion.ts\<close>\<close>

text \<open>
  The TypeScript being modelled is the class \<open>EntityLibrary\<close> with the functions around
  it (\<open>examples/src/entity-insertion.ts\<close>; the recipe
  \<open>docs/05-recipes/entity-insertion-patterns.md\<close> holds the same class with one more
  method, \<open>search\<close>).

  The texts of the entities and the strings of the placeholder loop are modelled as
  \<^typ>\<open>string\<close>: lists of code units in the range 0..255, where a UTF-16 code unit is
  a code point of the Latin-1 block. The query of \<open>search\<close> is any list of code
  units (\<open>utf16\<close>).
\<close>

subsection \<open>\<open>StandardEntity\<close>\<close>

text \<open>
  \<^verbatim>\<open>
  export interface StandardEntity {
    id: string;
    name: string;
    category: 'legal' | 'boilerplate' | 'signature' | 'header' | 'footer';
    content: string;
    version: string;
    lastUpdated: Date;
  }
  \<close>
  The union of string literal types exists for the type checker only: the value that is
  stored and compared at run time is a string. The field is a string here, and the
  union is the predicate \<open>valid_category\<close>. A \<open>Date\<close> is its time value, the
  milliseconds since the epoch.
\<close>

record StandardEntity =
  id' :: string
  name :: string
  category :: string
  content :: string
  version :: string
  lastUpdated :: int

definition categories :: "string list" where
  "categories = [''legal'', ''boilerplate'', ''signature'', ''header'', ''footer'']"

definition valid_category :: "string \<Rightarrow> bool" where
  "valid_category c \<longleftrightarrow> c \<in> set categories"

subsection \<open>\<open>Map\<close>: insertion-ordered, keyed\<close>

text \<open>
  \<open>Map<string, StandardEntity>\<close> iterates in insertion order. \<open>set\<close> on a key that is
  present replaces the value where the key stands; on a new key it appends. \<open>get\<close>
  returns \<open>undefined\<close> (here \<open>None\<close>) for a key that is absent.
\<close>

type_synonym ('k, 'v) js_map = "('k \<times> 'v) list"

fun map_set :: "'k \<Rightarrow> 'v \<Rightarrow> ('k, 'v) js_map \<Rightarrow> ('k, 'v) js_map" where
  "map_set k v [] = [(k, v)]"
| "map_set k v ((k', v') # m) = (if k' = k then (k, v) # m else (k', v') # map_set k v m)"

definition map_get :: "('k, 'v) js_map \<Rightarrow> 'k \<Rightarrow> 'v option" where
  "map_get m k = map_of m k"

definition map_values :: "('k, 'v) js_map \<Rightarrow> 'v list" where
  "map_values m = map snd m"

definition map_keys :: "('k, 'v) js_map \<Rightarrow> 'k list" where
  "map_keys m = map fst m"

subsection \<open>\<open>EntityLibrary\<close>\<close>

text \<open>
  \<^verbatim>\<open>
  private entities: Map<string, StandardEntity> = new Map();
  constructor() { this.loadDefaultEntities(); }
  private loadDefaultEntities(): void {
    const defaults: StandardEntity[] = [ ... ];
    for (const entity of defaults) {
      this.entities.set(entity.id, entity);
    }
  }
  getEntity(id: string): StandardEntity | undefined {
    return this.entities.get(id);
  }
  getByCategory(category: StandardEntity['category']): StandardEntity[] {
    return Array.from(this.entities.values())
      .filter(e => e.category === category);
  }
  \<close>
  The library is its one field, the map. \<open>register\<close> is the body of the loop of
  \<open>loadDefaultEntities\<close>, the only place where the class stores an entity: it checks
  nothing and cannot fail.
\<close>

type_synonym EntityLibrary = "(string, StandardEntity) js_map"

definition register :: "EntityLibrary \<Rightarrow> StandardEntity \<Rightarrow> EntityLibrary" where
  "register lib entity = map_set (id' entity) entity lib"

definition newline :: char where
  "newline = CHR 0x0A"

definition defaults :: "StandardEntity list" where
  "defaults =
    [ \<lparr> id' = ''confidentiality-clause'', name = ''Confidentiality Clause'',
        category = ''legal'',
        content = ''Both parties agree to maintain the confidentiality of all proprietary information disclosed during the term of this agreement.'',
        version = ''1.0'', lastUpdated = 1704067200000 \<rparr>,
      \<lparr> id' = ''governing-law'', name = ''Governing Law'',
        category = ''legal'',
        content = ''This Agreement shall be governed by and construed in accordance with the laws of the State of [STATE].'',
        version = ''2.1'', lastUpdated = 1707955200000 \<rparr>,
      \<lparr> id' = ''company-signature'', name = ''Company Signature Block'',
        category = ''signature'',
        content = ''ACME CORPORATION'' @ [newline, newline] @ ''By: _______________________''
          @ [newline] @ ''Name: [AUTHORIZED_NAME]'' @ [newline] @ ''Title: [AUTHORIZED_TITLE]'',
        version = ''1.0'', lastUpdated = 1704067200000 \<rparr> ]"

definition loadDefaultEntities :: "EntityLibrary \<Rightarrow> EntityLibrary" where
  "loadDefaultEntities lib = foldl register lib defaults"

definition entityLibrary :: EntityLibrary where
  "entityLibrary = loadDefaultEntities []"

definition getEntity :: "EntityLibrary \<Rightarrow> string \<Rightarrow> StandardEntity option" where
  "getEntity lib i = map_get lib i"

definition getByCategory :: "EntityLibrary \<Rightarrow> string \<Rightarrow> StandardEntity list" where
  "getByCategory lib c = filter (\<lambda>e. category e = c) (map_values lib)"

text \<open>
  Every library the class can hold is built from the empty map by \<open>set(entity.id, entity)\<close>.
\<close>

inductive reachable :: "EntityLibrary \<Rightarrow> bool" where
  empty: "reachable []"
| step: "reachable lib \<Longrightarrow> reachable (register lib e)"

text \<open>Such a library holds every entity under the entity's own id.\<close>

definition keyed_by_id :: "EntityLibrary \<Rightarrow> bool" where
  "keyed_by_id lib \<longleftrightarrow> list_all (\<lambda>p. fst p = id' (snd p)) lib"

subsection \<open>Strings: \<open>includes\<close>, \<open>toLowerCase\<close>, \<open>toUpperCase\<close>\<close>

text \<open>
  A string is a list of UTF-16 code units, each a number (below 65536 in a string of the
  program). \<open>units\<close> gives the code units of a text of units 0..255.
\<close>

type_synonym utf16 = "nat list"

definition units :: "string \<Rightarrow> utf16" where
  "units s = map of_char s"

text \<open>
  \<open>s.includes(q)\<close>: \<open>q\<close> stands in \<open>s\<close> at some index.
\<close>

fun includes' :: "'a list \<Rightarrow> 'a list \<Rightarrow> bool" where
  "includes' [] q = (q = [])"
| "includes' (c # s) q = (prefix q (c # s) \<or> includes' s q)"

text \<open>
  \<open>toLowerCase\<close> and \<open>toUpperCase\<close> follow Unicode's case conversions, which are not
  part of the repository. On a string whose units are all below 256 they are written
  out here:
  \<^item> \<open>toLowerCase\<close> maps \<open>A\<close>..\<open>Z\<close> and the capital letters U+00C0..U+00DE (but the
    multiplication sign U+00D7) to the unit 32 above, and leaves every other unit;
  \<^item> \<open>toUpperCase\<close> maps \<open>a\<close>..\<open>z\<close> and the small letters U+00E0..U+00FE (but the
    division sign U+00F7) to the unit 32 below, the sharp s U+00DF to the two units
    \<open>SS\<close>, the micro sign U+00B5 to U+039C and U+00FF to U+0178, and leaves every
    other unit.
  On every other string the result is that of the first argument, the platform's
  conversion, which the theory leaves open: what is proved holds whatever it is.

  \<open>toUpperCase\<close> is the one the specification's sentence on searching speaks of; the
  code never calls it.
\<close>

definition latin1 :: "utf16 \<Rightarrow> bool" where
  "latin1 s \<longleftrightarrow> list_all (\<lambda>u. u < 256) s"

definition toLowerCase_unit :: "nat \<Rightarrow> nat" where
  "toLowerCase_unit u =
     (if (65 \<le> u \<and> u \<le> 90) \<or> (192 \<le> u \<and> u \<le> 222 \<and> u \<noteq> 215) then u + 32 else u)"

definition toLowerCase :: "(utf16 \<Rightarrow> utf16) \<Rightarrow> utf16 \<Rightarrow> utf16" where
  "toLowerCase conversion s = (if latin1 s then map toLowerCase_unit s else conversion s)"

definition toUpperCase_unit :: "nat \<Rightarrow> utf16" where
  "toUpperCase_unit u =
     (if (97 \<le> u \<and> u \<le> 122) \<or> (224 \<le> u \<and> u \<le> 254 \<and> u \<noteq> 247) then [u - 32]
      else if u = 223 then [83, 83]
      else if u = 181 then [924]
      else if u = 255 then [376]
      else [u])"

definition toUpperCase :: "(utf16 \<Rightarrow> utf16) \<Rightarrow> utf16 \<Rightarrow> utf16" where
  "toUpperCase conversion s = (if latin1 s then concat (map toUpperCase_unit s) else conversion s)"

subsection \<open>\<open>search\<close> (the recipe's class)\<close>

text \<open>
  \<^verbatim>\<open>
  search(query: string): StandardEntity[] {
    const lowerQuery = query.toLowerCase();
    return Array.from(this.entities.values())
      .filter(e =>
        e.name.toLowerCase().includes(lowerQuery) ||
        e.content.toLowerCase().includes(lowerQuery)
      );
  }
  \<close>
  The recipe's library loads four entities, with longer texts than the example's three.
  The first argument of \<open>search\<close> is the platform's lower-case conversion, which
  \<open>toLowerCase\<close> takes.
\<close>

definition search :: "(utf16 \<Rightarrow> utf16) \<Rightarrow> EntityLibrary \<Rightarrow> utf16 \<Rightarrow> StandardEntity list" where
  "search lc lib query =
     (let lowerQuery = toLowerCase lc query in
      filter (\<lambda>e. includes' (toLowerCase lc (units (name e))) lowerQuery
                  \<or> includes' (toLowerCase lc (units (content e))) lowerQuery)
        (map_values lib))"

definition defaults_recipe :: "StandardEntity list" where
  "defaults_recipe =
    [ \<lparr> id' = ''confidentiality-clause'', name = ''Confidentiality Clause'',
        category = ''legal'',
        content = ''Both parties agree to maintain the confidentiality of all proprietary information disclosed during the term of this agreement. This obligation shall survive termination for a period of five (5) years.'',
        version = ''1.0'', lastUpdated = 1704067200000 \<rparr>,
      \<lparr> id' = ''governing-law'', name = ''Governing Law'',
        category = ''legal'',
        content = ''This Agreement shall be governed by and construed in accordance with the laws of the State of [STATE], without regard to its conflict of law provisions.'',
        version = ''2.1'', lastUpdated = 1707955200000 \<rparr>,
      \<lparr> id' = ''company-signature'', name = ''Company Signature Block'',
        category = ''signature'',
        content = ''ACME CORPORATION'' @ [newline, newline] @ ''By: _______________________''
          @ [newline] @ ''Name: [AUTHORIZED_NAME]'' @ [newline] @ ''Title: [AUTHORIZED_TITLE]''
          @ [newline] @ ''Date: _____________________'',
        version = ''1.0'', lastUpdated = 1704067200000 \<rparr>,
      \<lparr> id' = ''limitation-liability'', name = ''Limitation of Liability'',
        category = ''legal'',
        content = ''IN NO EVENT SHALL EITHER PARTY BE LIABLE FOR ANY INDIRECT, INCIDENTAL, SPECIAL, CONSEQUENTIAL, OR PUNITIVE DAMAGES, INCLUDING WITHOUT LIMITATION, LOSS OF PROFITS, DATA, USE, GOODWILL, OR OTHER INTANGIBLE LOSSES.'',
        version = ''1.2'', lastUpdated = 1709251200000 \<rparr> ]"

definition entityLibrary_recipe :: EntityLibrary where
  "entityLibrary_recipe = foldl register [] defaults_recipe"

section \<open>Replacing placeholders\<close>

text \<open>
  \<^verbatim>\<open>
  let content = entity.content;
  for (const [placeholder, value] of Object.entries(entityWithFields.fieldValues)) {
    content = content.replace(
      new RegExp(`\\[${placeholder}\\]`, 'g'),
      value
    );
  }
  \<close>
  The template literal builds the pattern source: a backslash, \<open>[\<close>, the placeholder as
  it is, a backslash, \<open>]\<close>. The placeholder is not escaped, so the constructor reads
  its characters as pattern syntax; and \<open>replace\<close> reads \<open>$\<close> in the value as the start
  of a replacement pattern. Both are part of what the loop computes and are modelled.
\<close>

subsection \<open>Results\<close>

text \<open>
  A call returns, or throws, or leaves the part of ECMAScript that this theory models
  (\<open>Unmodelled\<close>: nothing is stated about such a call).
\<close>

datatype js_error = SyntaxError | Error string | DocumentError js_error

datatype 'a outcome = Returns 'a | Throws js_error | Unmodelled

subsection \<open>\<open>new RegExp(source, 'g')\<close>\<close>

text \<open>
  The modelled patterns are sequences of terms; a term is an atom with at most one greedy
  quantifier \<open>*\<close>, \<open>+\<close>, \<open>?\<close>; an atom is a pattern character, a syntax character
  escaped by a backslash, or the dot. The constructor's result is
  \<^item> \<open>Parsed p\<close> for such a source;
  \<^item> \<open>Invalid\<close> (the constructor throws a \<open>SyntaxError\<close>) where, after terms of this
    kind only, the source has a quantifier with nothing to repeat, a closing parenthesis,
    or a backslash as its last character;
  \<^item> \<open>Beyond\<close> for every other source (groups, classes, alternatives, assertions,
    braces, lazy quantifiers, the other escapes): the theory does not say what the
    constructor does with it.
\<close>

datatype atom = Literal char | AnyChar

datatype quantifier = Once | Star | Plus | Question

type_synonym pattern = "(atom \<times> quantifier) list"

datatype compiled = Parsed pattern | Invalid | Beyond

definition backslash :: char where
  "backslash = CHR 0x5C"

definition SyntaxCharacter :: "char \<Rightarrow> bool" where
  "SyntaxCharacter c \<longleftrightarrow> c \<in> set (''^$.*+?()[]{}|'' @ [backslash])"

definition quantifier_of :: "char \<Rightarrow> quantifier option" where
  "quantifier_of c =
     (if c = CHR ''*'' then Some Star
      else if c = CHR ''+'' then Some Plus
      else if c = CHR ''?'' then Some Question
      else None)"

definition followed :: "(atom \<times> quantifier) \<Rightarrow> compiled \<Rightarrow> compiled" where
  "followed t c = (case c of Parsed p \<Rightarrow> Parsed (t # p) | Invalid \<Rightarrow> Invalid | Beyond \<Rightarrow> Beyond)"

text \<open>
  The first argument is the atom read last, while it still waits for its quantifier.
\<close>

function parse_from :: "atom option \<Rightarrow> string \<Rightarrow> compiled" where
  "parse_from None [] = Parsed []"
| "parse_from None (c # cs) =
     (if c = backslash then
        (case cs of
           [] \<Rightarrow> Invalid
         | d # ds \<Rightarrow> if SyntaxCharacter d then parse_from (Some (Literal d)) ds else Beyond)
      else if c = CHR ''.'' then parse_from (Some AnyChar) cs
      else if c = CHR ''*'' \<or> c = CHR ''+'' \<or> c = CHR ''?'' \<or> c = CHR '')'' then Invalid
      else if SyntaxCharacter c then Beyond
      else parse_from (Some (Literal c)) cs)"
| "parse_from (Some a) [] = Parsed [(a, Once)]"
| "parse_from (Some a) (c # cs) =
     (case quantifier_of c of
        None \<Rightarrow> followed (a, Once) (parse_from None (c # cs))
      | Some q \<Rightarrow>
          (case cs of
             [] \<Rightarrow> Parsed [(a, q)]
           | r # rs \<Rightarrow> if r = CHR ''?'' then Beyond else followed (a, q) (parse_from None (r # rs))))"
  by pat_completeness auto
termination
  by (relation "measure (\<lambda>(pending, s). 2 * length s + (case pending of None \<Rightarrow> 0 | Some a \<Rightarrow> 1))") auto

definition RegExp :: "string \<Rightarrow> compiled" where
  "RegExp source = parse_from None source"

subsection \<open>Matching at one index\<close>

text \<open>
  The dot matches every code unit but a line terminator (of the units 0..255: line feed
  and carriage return). \<open>match_here p s\<close> is the length of the match of \<open>p\<close> at the
  start of \<open>s\<close> that the backtracking matcher finds first (a greedy quantifier takes as
  many units as it can and gives them back one at a time), or \<open>None\<close>.
\<close>

fun atom_matches :: "atom \<Rightarrow> char \<Rightarrow> bool" where
  "atom_matches (Literal d) c = (c = d)"
| "atom_matches AnyChar c = (c \<noteq> CHR 0x0A \<and> c \<noteq> CHR 0x0D)"

fun match_here :: "pattern \<Rightarrow> string \<Rightarrow> nat option" where
  "match_here [] s = Some 0"
| "match_here ((a, Once) # p) [] = None"
| "match_here ((a, Once) # p) (c # cs) =
     (if atom_matches a c then map_option Suc (match_here p cs) else None)"
| "match_here ((a, Question) # p) [] = match_here p []"
| "match_here ((a, Question) # p) (c # cs) =
     (if atom_matches a c then
        (case match_here p cs of Some n \<Rightarrow> Some (Suc n) | None \<Rightarrow> match_here p (c # cs))
      else match_here p (c # cs))"
| "match_here ((a, Star) # p) [] = match_here p []"
| "match_here ((a, Star) # p) (c # cs) =
     (if atom_matches a c then
        (case match_here ((a, Star) # p) cs of Some n \<Rightarrow> Some (Suc n) | None \<Rightarrow> match_here p (c # cs))
      else match_here p (c # cs))"
| "match_here ((a, Plus) # p) [] = None"
| "match_here ((a, Plus) # p) (c # cs) =
     (if atom_matches a c then map_option Suc (match_here ((a, Star) # p) cs) else None)"

subsection \<open>\<open>String.prototype.replace\<close> with a global pattern\<close>

text \<open>
  \<open>GetSubstitution\<close> expands the replacement value for one match: \<open>$$\<close> is a dollar
  sign, \<open>$&\<close> the matched text, \<open>$`\<close> the text before the match and \<open>$'\<close> the text
  after it. The modelled patterns have no capture groups, so \<open>$1\<close>..\<open>$99\<close> and \<open>$<\<close>
  stand for themselves, as does every other dollar sign.
\<close>

fun GetSubstitution :: "string \<Rightarrow> string \<Rightarrow> string \<Rightarrow> string \<Rightarrow> string" where
  "GetSubstitution matched preceding following [] = []"
| "GetSubstitution matched preceding following [c] = [c]"
| "GetSubstitution matched preceding following (c # d # t) =
     (if c = CHR ''$'' then
        (if d = CHR ''$'' then CHR ''$'' # GetSubstitution matched preceding following t
         else if d = CHR ''&'' then matched @ GetSubstitution matched preceding following t
         else if d = CHR 0x60 then preceding @ GetSubstitution matched preceding following t
         else if d = CHR 0x27 then following @ GetSubstitution matched preceding following t
         else CHR ''$'' # GetSubstitution matched preceding following (d # t))
      else c # GetSubstitution matched preceding following (d # t))"

text \<open>
  With the flag \<open>g\<close>, \<open>replace\<close> finds the matches from left to right, each search
  starting where the match before ended (one unit further on after an empty match), and
  puts the expansion of the value in the place of each. \<open>replace_from p v preceding s\<close>
  is the result from the current index on: \<open>s\<close> is the rest of the string and
  \<open>preceding\<close> what stands before it.
\<close>

function replace_from :: "pattern \<Rightarrow> string \<Rightarrow> string \<Rightarrow> string \<Rightarrow> string" where
  "replace_from p replaceValue preceding s =
     (case match_here p s of
        None \<Rightarrow>
          (case s of
             [] \<Rightarrow> []
           | c # cs \<Rightarrow> c # replace_from p replaceValue (preceding @ [c]) cs)
      | Some n \<Rightarrow>
          GetSubstitution (take n s) preceding (drop n s) replaceValue @
          (case take n s of
             [] \<Rightarrow>
               (case drop n s of
                  [] \<Rightarrow> []
                | c # cs \<Rightarrow> c # replace_from p replaceValue (preceding @ [c]) cs)
           | m # ms \<Rightarrow> replace_from p replaceValue (preceding @ m # ms) (drop n s)))"
  by pat_completeness auto
termination
proof (relation "measure (\<lambda>(p, v, b, s). length s)")
  show "wf (measure (\<lambda>(p, v, b, s). length s))" by simp
next
  fix p :: pattern and replaceValue preceding s :: string and x21 x22
  assume "s = x21 # x22"
  then show "((p, replaceValue, preceding @ [x21], x22), p, replaceValue, preceding, s)
       \<in> measure (\<lambda>(p, v, b, s). length s)" by simp
next
  fix p :: pattern and replaceValue preceding s :: string and n x21 x22
  assume "take n s = []" "drop n s = x21 # x22"
  then have "length x22 < length s"
    by (metis append_take_drop_id length_Cons lessI self_append_conv2)
  then show "((p, replaceValue, preceding @ [x21], x22), p, replaceValue, preceding, s)
       \<in> measure (\<lambda>(p, v, b, s). length s)" by simp
next
  fix p :: pattern and replaceValue preceding s :: string and n x21 x22
  assume "take n s = x21 # x22"
  then have "0 < n" "s \<noteq> []" by (auto intro: gr0I)
  then have "length (drop n s) < length s" by simp
  then show "((p, replaceValue, preceding @ x21 # x22, drop n s), p, replaceValue, preceding, s)
       \<in> measure (\<lambda>(p, v, b, s). length s)" by simp
qed

definition replace :: "string \<Rightarrow> pattern \<Rightarrow> string \<Rightarrow> string" where
  "replace s p replaceValue = replace_from p replaceValue [] s"

subsection \<open>The loop of \<open>insertEntityWithFields\<close>\<close>

text \<open>
  \<open>resolvePlaceholders\<close> is the loop, on the text held by the variable \<open>content\<close>
  (written \<open>s\<close> here, \<open>content\<close> being the field) and on the entries of
  \<open>fieldValues\<close> in the order in which \<open>Object.entries\<close> gives them (the keys of an
  object are distinct). It is what the specification calls by this name.
\<close>

definition placeholder_source :: "string \<Rightarrow> string" where
  "placeholder_source placeholder = [backslash, CHR ''[''] @ placeholder @ [backslash, CHR '']'']"

fun resolvePlaceholders :: "string \<Rightarrow> (string \<times> string) list \<Rightarrow> string outcome" where
  "resolvePlaceholders s [] = Returns s"
| "resolvePlaceholders s ((placeholder, v) # entries) =
     (case RegExp (placeholder_source placeholder) of
        Invalid \<Rightarrow> Throws SyntaxError
      | Beyond \<Rightarrow> Unmodelled
      | Parsed p \<Rightarrow> resolvePlaceholders (replace s p v) entries)"

subsection \<open>\<open>insertEntityWithFields\<close>\<close>

text \<open>
  \<^verbatim>\<open>
  export interface EntityWithFields {
    entityId: string;
    fieldValues: { [placeholder: string]: string };
  }
  export async function insertEntityWithFields(entityWithFields) {
    const entity = entityLibrary.getEntity(entityWithFields.entityId);
    if (!entity) {
      throw new Error(`Entity not found: ${entityWithFields.entityId}`);
    }
    await safeWordRun(async (context) => {
      const range = context.document.getSelection();
      let content = entity.content;
      for (...) { content = content.replace(...); }
      range.insertText(content, Word.InsertLocation.replace);
      await context.sync();
    });
  }
  \<close>
  The state is the library and the text of the selection in the document.
  \<open>safeWordRun\<close> wraps what its callback throws in a \<open>DocumentError\<close>. What the
  host may refuse on its own (\<open>Word.run\<close>, \<open>context.sync\<close>) is not part of the state.
\<close>

record EntityWithFields =
  entityId :: string
  fieldValues :: "(string \<times> string) list"

record world =
  library :: EntityLibrary
  selection :: string

definition insertEntityWithFields :: "EntityWithFields \<Rightarrow> world \<Rightarrow> unit outcome \<times> world" where
  "insertEntityWithFields entityWithFields w =
     (case getEntity (library w) (entityId entityWithFields) of
        None \<Rightarrow> (Throws (Error (''Entity not found: '' @ entityId entityWithFields)), w)
      | Some entity \<Rightarrow>
          (case resolvePlaceholders (content entity) (fieldValues entityWithFields) of
             Returns c \<Rightarrow> (Returns (), w\<lparr>selection := c\<rparr>)
           | Throws e \<Rightarrow> (Throws (DocumentError e), w)
           | Unmodelled \<Rightarrow> (Unmodelled, w)))"

section \<open>The specification's words\<close>

text \<open>
  A string contains a query but for the case of letters when its lower-case form
  contains the lower-case form of the query as a contiguous part.
\<close>

definition ci_contains :: "(utf16 \<Rightarrow> utf16) \<Rightarrow> utf16 \<Rightarrow> utf16 \<Rightarrow> bool" where
  "ci_contains lc s q \<longleftrightarrow> sublist (toLowerCase lc q) (toLowerCase lc s)"

definition ascii :: "utf16 \<Rightarrow> bool" where
  "ascii s \<longleftrightarrow> list_all (\<lambda>u. u < 128) s"

text \<open>
  For strings of units below 256 the same can be said letter by letter: two units are
  the same letter when they are equal or one is the capital of the other, 32 below it;
  \<open>contains_letters s q\<close>: some contiguous part of \<open>s\<close> has the length of \<open>q\<close> and,
  index by index, the same letters.
\<close>

definition capital :: "nat \<Rightarrow> bool" where
  "capital u \<longleftrightarrow> (65 \<le> u \<and> u \<le> 90) \<or> (192 \<le> u \<and> u \<le> 222 \<and> u \<noteq> 215)"

definition same_letter :: "nat \<Rightarrow> nat \<Rightarrow> bool" where
  "same_letter a b \<longleftrightarrow> a = b \<or> (capital a \<and> b = a + 32) \<or> (capital b \<and> a = b + 32)"

definition contains_letters :: "utf16 \<Rightarrow> utf16 \<Rightarrow> bool" where
  "contains_letters s q \<longleftrightarrow> (\<exists>w \<in> set (sublists s). list_all2 same_letter w q)"

text \<open>
  The token of a key is the key between brackets. A key is plain when none of its
  characters is a syntax character of patterns; a value is verbatim when it has no
  dollar sign. \<open>replace_all tok v s\<close> replaces the occurrences of the string \<open>tok\<close> in
  \<open>s\<close>, from left to right, by the string \<open>v\<close>; \<open>substitute\<close> does so for the
  token of each key of a list of entries in turn.
\<close>

definition token :: "string \<Rightarrow> string" where
  "token k = CHR ''['' # k @ '']''"

definition plain :: "string \<Rightarrow> bool" where
  "plain k \<longleftrightarrow> list_all (\<lambda>c. \<not> SyntaxCharacter c) k"

definition verbatim :: "string \<Rightarrow> bool" where
  "verbatim v \<longleftrightarrow> CHR ''$'' \<notin> set v"

fun replace_all :: "string \<Rightarrow> string \<Rightarrow> string \<Rightarrow> string" where
  "replace_all tok v [] = []"
| "replace_all tok v (c # cs) =
     (if prefix tok (c # cs) then v @ replace_all tok v (drop (length tok - 1) cs)
      else c # replace_all tok v cs)"

fun substitute :: "(string \<times> string) list \<Rightarrow> string \<Rightarrow> string" where
  "substitute [] s = s"
| "substitute ((k, v) # es) s = substitute es (replace_all (token k) v s)"

text \<open>The pattern that matches a string of characters literally.\<close>

definition literals :: "string \<Rightarrow> pattern" where
  "literals tok = map (\<lambda>c. (Literal c, Once)) tok"

section \<open>Example values\<close>

definition confidentiality_v1 :: StandardEntity where
  "confidentiality_v1 = hd defaults"

definition confidentiality_v2 :: StandardEntity where
  "confidentiality_v2 =
     confidentiality_v1 \<lparr> content := ''Each party keeps what it learns secret.'', version := ''2.0'' \<rparr>"

definition governing_law :: StandardEntity where
  "governing_law = defaults ! 1"

definition arbitration :: StandardEntity where
  "arbitration = \<lparr> id' = ''arbitration'', name = ''Arbitration'', category = ''legal'',
     content = ''Disputes are settled by arbitration.'', version = ''1.0'', lastUpdated = 0 \<rparr>"

definition delaware :: EntityWithFields where
  "delaware = \<lparr> entityId = ''governing-law'', fieldValues = [(''STATE'', ''Delaware'')] \<rparr>"

definition sharp_s :: utf16 where
  "sharp_s = [223]"

section \<open>Facts about the map\<close>

lemma map_of_map_set: "map_of (map_set k v m) = (map_of m)(k \<mapsto> v)"
  by (induction m) auto

lemma map_get_set: "map_get (map_set k v m) k' = (if k' = k then Some v else map_get m k')"
  by (simp add: map_get_def map_of_map_set)

lemma map_keys_set_new: "k \<notin> set (map_keys m) \<Longrightarrow> map_set k v m = m @ [(k, v)]"
  by (induction m) (auto simp: map_keys_def)

lemma map_keys_set_old: "k \<in> set (map_keys m) \<Longrightarrow> map_keys (map_set k v m) = map_keys m"
  unfolding map_keys_def
proof (induction m)
  case Nil
  then show ?case by simp
next
  case (Cons p m)
  obtain k' v' where p: "p = (k', v')" by (cases p)
  show ?case
  proof (cases "k' = k")
    case True
    with p show ?thesis by simp
  next
    case False
    with Cons.prems p have "k \<in> set (map fst m)" by auto
    with Cons.IH False p show ?thesis by simp
  qed
qed

lemma set_map_keys_set: "set (map_keys (map_set k v m)) = insert k (set (map_keys m))"
  unfolding map_keys_def
proof (induction m)
  case Nil
  then show ?case by simp
next
  case (Cons p m)
  obtain k' v' where p: "p = (k', v')" by (cases p)
  show ?case
  proof (cases "k' = k")
    case True
    with p show ?thesis by simp
  next
    case False
    with Cons.IH p show ?thesis by (simp add: insert_commute)
  qed
qed

lemma distinct_map_set: "distinct (map_keys m) \<Longrightarrow> distinct (map_keys (map_set k v m))"
proof (cases "k \<in> set (map_keys m)")
  case True
  assume "distinct (map_keys m)"
  with True show ?thesis by (simp add: map_keys_set_old)
next
  case False
  assume "distinct (map_keys m)"
  with False show ?thesis by (simp add: map_keys_set_new) (simp add: map_keys_def)
qed

lemma set_map_set_subset: "set (map_set k v m) \<subseteq> insert (k, v) (set m)"
  by (induction m) (auto split: if_splits)

lemma set_map_set_distinct:
  "distinct (map_keys m) \<Longrightarrow> p \<in> set (map_set k v m) \<Longrightarrow> p = (k, v) \<or> (p \<in> set m \<and> fst p \<noteq> k)"
proof (induction m)
  case Nil
  then show ?case by simp
next
  case (Cons q m)
  obtain k' v' where q: "q = (k', v')" by (cases q)
  show ?case
  proof (cases "k' = k")
    case True
    with Cons.prems q have "p = (k, v) \<or> p \<in> set m" by auto
    moreover have "p \<in> set m \<Longrightarrow> fst p \<noteq> k"
      using Cons.prems(1) q True by (auto simp: map_keys_def)
    ultimately show ?thesis by auto
  next
    case False
    from Cons.prems(1) have d: "distinct (map_keys m)" by (simp add: map_keys_def)
    from Cons.prems(2) q False have "p = (k', v') \<or> p \<in> set (map_set k v m)" by auto
    then show ?thesis
    proof
      assume "p = (k', v')"
      with q False show ?thesis by auto
    next
      assume "p \<in> set (map_set k v m)"
      with Cons.IH d show ?thesis by auto
    qed
  qed
qed

lemma map_get_None: "map_get m k = None \<longleftrightarrow> k \<notin> set (map_keys m)"
  by (simp add: map_get_def map_keys_def map_of_eq_None_iff)

lemma map_get_Some_mem: "map_get m k = Some v \<Longrightarrow> (k, v) \<in> set m"
  by (simp add: map_get_def map_of_SomeD)

lemma map_get_distinct: "distinct (map_keys m) \<Longrightarrow> (k, v) \<in> set m \<Longrightarrow> map_get m k = Some v"
  by (simp add: map_get_def map_keys_def)

section \<open>Facts about the library\<close>

lemma keyed_by_id_register: "keyed_by_id lib \<Longrightarrow> keyed_by_id (register lib e)"
proof -
  assume k: "keyed_by_id lib"
  have "set (register lib e) \<subseteq> insert (id' e, e) (set lib)"
    unfolding register_def by (rule set_map_set_subset)
  with k show ?thesis
    unfolding keyed_by_id_def list_all_iff by auto
qed

lemma reachable_distinct: "reachable lib \<Longrightarrow> distinct (map_keys lib)"
proof (induction rule: reachable.induct)
  case empty
  show ?case by (simp add: map_keys_def)
next
  case (step lib e)
  then show ?case by (simp add: register_def distinct_map_set)
qed

lemma reachable_keyed: "reachable lib \<Longrightarrow> keyed_by_id lib"
proof (induction rule: reachable.induct)
  case empty
  show ?case by (simp add: keyed_by_id_def)
next
  case (step lib e)
  then show ?case by (simp add: keyed_by_id_register)
qed

lemma reachable_foldl: "reachable lib \<Longrightarrow> reachable (foldl register lib es)"
  by (induction es arbitrary: lib) (auto intro: reachable.step)

lemma reachable_entityLibrary: "reachable entityLibrary"
  unfolding entityLibrary_def loadDefaultEntities_def
  by (rule reachable_foldl) (rule reachable.empty)

lemma getEntity_register: "getEntity (register lib e) i = (if i = id' e then Some e else getEntity lib i)"
  by (simp add: getEntity_def register_def map_get_set)

lemma reachable_member_get:
  assumes "reachable lib" and "e \<in> set (map_values lib)"
  shows "getEntity lib (id' e) = Some e"
proof -
  from assms(2) obtain k where mem: "(k, e) \<in> set lib"
    by (auto simp: map_values_def)
  from assms(1) have "keyed_by_id lib" by (rule reachable_keyed)
  with mem have "k = id' e"
    unfolding keyed_by_id_def list_all_iff by auto
  with mem have "(id' e, e) \<in> set lib" by simp
  with reachable_distinct [OF assms(1)] show ?thesis
    unfolding getEntity_def by (rule map_get_distinct)
qed

lemma reachable_distinct_values: "reachable lib \<Longrightarrow> distinct (map_values lib)"
proof -
  assume r: "reachable lib"
  from reachable_keyed [OF r] have "map fst lib = map id' (map snd lib)"
    unfolding keyed_by_id_def list_all_iff by simp
  with reachable_distinct [OF r] have "distinct (map id' (map_values lib))"
    by (simp add: map_keys_def map_values_def)
  then show ?thesis by (simp add: distinct_map)
qed

lemma defaults_valid_category:
  "list_all (\<lambda>e. valid_category (category e)) (defaults @ defaults_recipe)"
  by (simp add: defaults_def defaults_recipe_def valid_category_def categories_def)

lemma values_register_new:
  "id' e \<notin> set (map_keys lib) \<Longrightarrow> map_values (register lib e) = map_values lib @ [e]"
  by (simp add: register_def map_keys_set_new map_values_def)

lemma library_insertEntityWithFields: "library (snd (insertEntityWithFields r w)) = library w"
  by (simp add: insertEntityWithFields_def split: option.splits outcome.splits)

lemma map_keys_entityLibrary:
  "map_keys entityLibrary = [''confidentiality-clause'', ''governing-law'', ''company-signature'']"
  by (simp add: entityLibrary_def loadDefaultEntities_def defaults_def register_def map_keys_def)

lemmas library_eval = entityLibrary_def loadDefaultEntities_def defaults_def register_def
  getEntity_def map_get_def map_values_def

section \<open>Facts about strings\<close>

lemma includes'_sublist: "includes' s q \<longleftrightarrow> sublist q s"
  by (induction s) (auto simp: sublist_Cons_right)

lemma includes'_empty: "includes' s []"
  by (simp add: includes'_sublist)

lemma latin1_empty: "latin1 []"
  by (simp add: latin1_def)

lemma toUpperCase_unit_ascii:
  assumes "u < 128"
  shows "\<exists>v. toUpperCase_unit u = [v] \<and> v < 128 \<and> toLowerCase_unit v = toLowerCase_unit u"
proof (cases "97 \<le> u \<and> u \<le> 122")
  case True
  then have "toUpperCase_unit u = [u - 32]" by (simp add: toUpperCase_unit_def)
  moreover from True have "65 \<le> u - 32 \<and> u - 32 \<le> 90" and "u - 32 + 32 = u" by arith+
  then have "toLowerCase_unit (u - 32) = u" by (simp add: toLowerCase_unit_def)
  moreover from True have "toLowerCase_unit u = u" by (simp add: toLowerCase_unit_def)
  ultimately show ?thesis using assms by simp
next
  case False
  with assms have "toUpperCase_unit u = [u]" by (auto simp: toUpperCase_unit_def)
  with assms show ?thesis by simp
qed

lemma upper_units_ascii:
  "ascii q \<Longrightarrow> ascii (concat (map toUpperCase_unit q))
     \<and> map toLowerCase_unit (concat (map toUpperCase_unit q)) = map toLowerCase_unit q"
proof (induction q)
  case Nil
  show ?case by (simp add: ascii_def)
next
  case (Cons u q)
  then have u: "u < 128" and q: "ascii q" by (simp_all add: ascii_def)
  from toUpperCase_unit_ascii [OF u] obtain v
    where v: "toUpperCase_unit u = [v]" "v < 128" "toLowerCase_unit v = toLowerCase_unit u"
    by blast
  with Cons.IH [OF q] show ?case by (simp add: ascii_def)
qed

lemma ascii_latin1: "ascii s \<Longrightarrow> latin1 s"
  unfolding ascii_def latin1_def list_all_iff by auto

lemma toLowerCase_toUpperCase_ascii:
  assumes "ascii q"
  shows "toLowerCase lc (toUpperCase uc q) = toLowerCase lc q"
proof -
  from upper_units_ascii [OF assms]
  have a: "ascii (concat (map toUpperCase_unit q))"
    and m: "map toLowerCase_unit (concat (map toUpperCase_unit q)) = map toLowerCase_unit q"
    by simp_all
  from assms have "toUpperCase uc q = concat (map toUpperCase_unit q)"
    by (simp add: toUpperCase_def ascii_latin1)
  with a m assms show ?thesis
    by (simp add: toLowerCase_def ascii_latin1)
qed

lemma latin1_units: "latin1 (units s)"
proof -
  have "(of_char c :: nat) < 256" for c
  proof -
    have "(of_char c :: nat) mod 256 = of_char c" by simp
    then show ?thesis by (metis mod_less_divisor zero_less_numeral)
  qed
  then show ?thesis by (simp add: latin1_def units_def list_all_iff)
qed

lemma same_letter_toLowerCase_unit:
  "same_letter a b \<longleftrightarrow> toLowerCase_unit a = toLowerCase_unit b"
  unfolding same_letter_def capital_def toLowerCase_unit_def by auto

lemma list_all2_same_letter:
  "list_all2 same_letter w q \<longleftrightarrow> map toLowerCase_unit w = map toLowerCase_unit q"
  by (induction w arbitrary: q) (auto simp: list_all2_Cons1 same_letter_toLowerCase_unit)

lemma sublist_map_iff:
  "sublist (map f q) (map f s) \<longleftrightarrow> (\<exists>w. sublist w s \<and> map f w = map f q)"
proof
  assume "sublist (map f q) (map f s)"
  then obtain w where "sublist w s" and "map f q = map f w"
    using sublist_map_rightE by blast
  then show "\<exists>w. sublist w s \<and> map f w = map f q" by auto
next
  assume "\<exists>w. sublist w s \<and> map f w = map f q"
  then obtain w where w: "sublist w s" and eq: "map f w = map f q" by blast
  from w obtain ps ss where "s = ps @ w @ ss" by (auto simp: sublist_def)
  then have "map f s = map f ps @ map f w @ map f ss" by simp
  then have "sublist (map f w) (map f s)" unfolding sublist_def by blast
  with eq show "sublist (map f q) (map f s)" by simp
qed

lemma ci_contains_latin1:
  "latin1 s \<Longrightarrow> latin1 q \<Longrightarrow> ci_contains lc s q \<longleftrightarrow> contains_letters s q"
  by (simp add: ci_contains_def contains_letters_def toLowerCase_def sublist_map_iff
      list_all2_same_letter Bex_def)

lemma sharp_s_any_conversion:
  "toUpperCase uc sharp_s = units ''SS''
   \<and> search lc entityLibrary_recipe sharp_s = []
   \<and> map id' (search lc entityLibrary_recipe (units ''SS'')) = [''limitation-liability'']"
  by (simp add: search_def toLowerCase_def toLowerCase_unit_def toUpperCase_def
      toUpperCase_unit_def latin1_def units_def entityLibrary_recipe_def defaults_recipe_def
      register_def map_values_def newline_def sharp_s_def)

lemma search_toLowerCase:
  "toLowerCase lc u = toLowerCase lc q \<Longrightarrow> search lc lib u = search lc lib q"
  by (simp add: search_def)

lemmas search_eval = search_def toLowerCase_def toLowerCase_unit_def toUpperCase_def
  toUpperCase_unit_def latin1_def units_def entityLibrary_recipe_def defaults_recipe_def
  register_def map_values_def newline_def sharp_s_def

section \<open>Facts about the replacement\<close>

lemmas regexp_eval = RegExp_def placeholder_source_def backslash_def SyntaxCharacter_def
  quantifier_of_def followed_def replace_def

lemma resolvePlaceholders_append:
  "resolvePlaceholders s (es @ es') =
     (case resolvePlaceholders s es of
        Returns t \<Rightarrow> resolvePlaceholders t es'
      | Throws err \<Rightarrow> Throws err
      | Unmodelled \<Rightarrow> Unmodelled)"
  by (induction s es rule: resolvePlaceholders.induct) (auto split: compiled.splits)

subsection \<open>Plain keys and verbatim values\<close>

text \<open>
  For a plain key the pattern is the token, character by character; for a verbatim value
  the expansion is the value. Then the loop is \<open>substitute\<close>: every occurrence of the
  token of a key is replaced by the value (\<open>replace_all_every_occurrence\<close>), and the
  token of a plain key that is not in the entries stays where it is
  (\<open>substitute_unmapped\<close>).
\<close>

lemma match_here_literals:
  "match_here (literals tok) s = (if prefix tok s then Some (length tok) else None)"
  unfolding literals_def
proof (induction tok arbitrary: s)
  case Nil
  show ?case by simp
next
  case (Cons t tok)
  show ?case by (cases s) (simp_all add: Cons)
qed

lemma plain_no_quantifier: "\<not> SyntaxCharacter c \<Longrightarrow> quantifier_of c = None"
  by (auto simp: SyntaxCharacter_def quantifier_of_def)

lemma plain_atom:
  assumes "\<not> SyntaxCharacter c"
  shows "parse_from None (c # cs) = parse_from (Some (Literal c)) cs"
  using assms by (auto simp: SyntaxCharacter_def)

lemma parse_plain_then_bracket:
  "plain k \<Longrightarrow> parse_from None (k @ [backslash, CHR '']'']) = Parsed (literals (k @ '']''))"
proof (induction k)
  case Nil
  show ?case by (simp add: literals_def SyntaxCharacter_def backslash_def)
next
  case (Cons c k)
  then have c: "\<not> SyntaxCharacter c" and k: "plain k" by (simp_all add: plain_def)
  have nq: "quantifier_of (hd (k @ [backslash, CHR '']''])) = None"
  proof (cases k)
    case Nil
    then show ?thesis by (simp add: quantifier_of_def backslash_def)
  next
    case (Cons d k')
    with k have "\<not> SyntaxCharacter d" by (simp add: plain_def)
    with Cons show ?thesis by (simp add: plain_no_quantifier)
  qed
  obtain d ds where ds: "k @ [backslash, CHR '']''] = d # ds" by (cases k) auto
  with nq have "quantifier_of d = None" by simp
  then have "parse_from (Some (Literal c)) (d # ds) = followed (Literal c, Once) (parse_from None (d # ds))"
    by simp
  with ds Cons.IH [OF k] have "parse_from (Some (Literal c)) (k @ [backslash, CHR '']''])
      = Parsed ((Literal c, Once) # literals (k @ '']''))"
    by (simp add: followed_def)
  moreover have "parse_from None (c # k @ [backslash, CHR '']''])
      = parse_from (Some (Literal c)) (k @ [backslash, CHR '']''])"
    using c by (rule plain_atom)
  ultimately have "parse_from None (c # k @ [backslash, CHR '']''])
      = Parsed ((Literal c, Once) # literals (k @ '']''))"
    by (simp only:)
  then show ?case by (simp add: literals_def)
qed

lemma RegExp_plain: "plain k \<Longrightarrow> RegExp (placeholder_source k) = Parsed (literals (token k))"
proof -
  assume k: "plain k"
  obtain d ds where ds: "k @ [backslash, CHR '']''] = d # ds" by (cases k) auto
  have "quantifier_of d = None"
  proof (cases k)
    case Nil
    with ds show ?thesis by (auto simp add: quantifier_of_def backslash_def)
  next
    case (Cons e k')
    with k have "\<not> SyntaxCharacter e" by (simp add: plain_def)
    with Cons ds show ?thesis by (simp add: plain_no_quantifier)
  qed
  then have "parse_from (Some (Literal CHR ''['')) (d # ds)
      = followed (Literal CHR ''['', Once) (parse_from None (d # ds))"
    by simp
  with ds parse_plain_then_bracket [OF k]
  have "parse_from (Some (Literal CHR ''['')) (k @ [backslash, CHR '']''])
      = Parsed (literals (token k))"
    by (simp add: followed_def literals_def token_def)
  then show ?thesis
    by (simp add: RegExp_def placeholder_source_def SyntaxCharacter_def)
qed

lemma GetSubstitution_verbatim:
  "CHR ''$'' \<notin> set v \<Longrightarrow> GetSubstitution m b a v = v"
  by (induction m b a v rule: GetSubstitution.induct) auto

lemma replace_from_literals:
  assumes "tok \<noteq> []" and "verbatim v"
  shows "replace_from (literals tok) v b s = replace_all tok v s"
proof (induction s arbitrary: b rule: length_induct)
  case (1 s)
  show ?case
  proof (cases "prefix tok s")
    case True
    then obtain r where s: "s = tok @ r" by (auto simp: prefix_def)
    from assms(1) obtain t ts where tok: "tok = t # ts" by (cases tok) auto
    have shorter: "length r < length s" using s assms(1) by simp
    have "replace_from (literals tok) v b s
        = v @ replace_from (literals tok) v (b @ tok) r"
      using True assms(2)
      by (subst replace_from.simps) (simp add: match_here_literals s tok GetSubstitution_verbatim verbatim_def)
    also have "\<dots> = v @ replace_all tok v r"
      using 1 shorter by simp
    also have "\<dots> = replace_all tok v s"
      using True by (simp add: s tok)
    finally show ?thesis .
  next
    case False
    show ?thesis
    proof (cases s)
      case Nil
      with False show ?thesis
        by (subst replace_from.simps) (simp add: match_here_literals)
    next
      case (Cons c cs)
      with False have "replace_from (literals tok) v b s
          = c # replace_from (literals tok) v (b @ [c]) cs"
        by (subst replace_from.simps) (simp add: match_here_literals)
      also have "\<dots> = c # replace_all tok v cs"
        using 1 Cons by simp
      also have "\<dots> = replace_all tok v s"
        using False Cons by simp
      finally show ?thesis .
    qed
  qed
qed

lemma plain_no_brackets: "plain k \<Longrightarrow> CHR ''['' \<notin> set k \<and> CHR '']'' \<notin> set k"
  by (auto simp: plain_def list_all_iff SyntaxCharacter_def)

lemma replace_all_at_token:
  "tok \<noteq> [] \<Longrightarrow> replace_all tok v (tok @ r) = v @ replace_all tok v r"
  by (cases tok) simp_all

lemma replace_all_no_open:
  "CHR ''['' \<notin> set w \<Longrightarrow> replace_all (token a) v (w @ ys) = w @ replace_all (token a) v ys"
  by (induction w) (auto simp: token_def)

lemma prefix_token_before_open:
  assumes "CHR ''['' \<notin> set a" and "prefix (token a) (xs @ CHR ''['' # r)" and "xs \<noteq> []"
  shows "prefix (token a) xs"
proof -
  from assms(2) consider "prefix (token a) xs"
    | us where "token a = xs @ us" and "prefix us (CHR ''['' # r)"
    by (auto simp: prefix_append)
  then show ?thesis
  proof cases
    case 1
    then show ?thesis .
  next
    case 2
    show ?thesis
    proof (cases us)
      case Nil
      with 2 show ?thesis by simp
    next
      case (Cons u us')
      with 2 have u: "u = CHR ''[''" by simp
      from assms(3) obtain x xs' where xs: "xs = x # xs'" by (cases xs) auto
      with 2 Cons u have "a @ '']'' = xs' @ CHR ''['' # us'" by (simp add: token_def)
      then have "CHR ''['' \<in> set (a @ '']'')" by (metis in_set_conv_decomp)
      with assms(1) show ?thesis by simp
    qed
  qed
qed

lemma replace_all_every_occurrence:
  assumes "CHR ''['' \<notin> set a"
  shows "replace_all (token a) v (xs @ token a @ ys)
       = replace_all (token a) v xs @ v @ replace_all (token a) v ys"
proof (induction xs rule: length_induct)
  case (1 xs)
  have ne: "token a \<noteq> []" by (simp add: token_def)
  show ?case
  proof (cases xs)
    case Nil
    with ne show ?thesis by (simp add: replace_all_at_token)
  next
    case (Cons c cs)
    have open_next: "token a @ ys = CHR ''['' # (a @ '']'' @ ys)" by (simp add: token_def)
    show ?thesis
    proof (cases "prefix (token a) (xs @ token a @ ys)")
      case True
      with assms Cons have "prefix (token a) xs"
        using prefix_token_before_open [of a xs "a @ '']'' @ ys"] by (simp add: open_next)
      then obtain r where r: "xs = token a @ r" by (auto simp: prefix_def)
      then have "length r < length xs" using ne by simp
      with 1 have "replace_all (token a) v (r @ token a @ ys)
          = replace_all (token a) v r @ v @ replace_all (token a) v ys"
        by simp
      with ne show ?thesis
        by (simp add: r replace_all_at_token)
    next
      case False
      then have "\<not> prefix (token a) xs" by (auto simp: prefix_def)
      with False Cons 1 show ?thesis by simp
    qed
  qed
qed

lemma prefix_closed_key:
  "x \<notin> set a \<Longrightarrow> x \<notin> set b \<Longrightarrow> prefix (a @ [x]) (b @ x # ys) \<Longrightarrow> a = b"
proof (induction a arbitrary: b)
  case Nil
  then show ?case by (cases b) auto
next
  case (Cons c a)
  then show ?case by (cases b) auto
qed

lemma replace_all_other_token:
  assumes "CHR ''['' \<notin> set a" and "CHR '']'' \<notin> set a"
    and "CHR ''['' \<notin> set b" and "CHR '']'' \<notin> set b" and "a \<noteq> b"
  shows "replace_all (token a) v (xs @ token b @ ys)
       = replace_all (token a) v xs @ token b @ replace_all (token a) v ys"
proof (induction xs rule: length_induct)
  case (1 xs)
  have ne: "token a \<noteq> []" by (simp add: token_def)
  have open_next: "token b @ ys = CHR ''['' # (b @ '']'' @ ys)" by (simp add: token_def)
  show ?case
  proof (cases xs)
    case Nil
    have "\<not> prefix (token a) (token b @ ys)"
    proof
      assume "prefix (token a) (token b @ ys)"
      then have "prefix (a @ '']'') (b @ CHR '']'' # ys)" by (simp add: token_def)
      with assms(2,4) have "a = b" by (rule prefix_closed_key)
      with assms(5) show False by simp
    qed
    then have "replace_all (token a) v (token b @ ys)
        = CHR ''['' # replace_all (token a) v ((b @ '']'') @ ys)"
      by (simp add: token_def)
    also have "\<dots> = CHR ''['' # (b @ '']'') @ replace_all (token a) v ys"
      using assms(3) by (subst replace_all_no_open) simp_all
    finally show ?thesis using Nil by (simp add: token_def)
  next
    case (Cons c cs)
    show ?thesis
    proof (cases "prefix (token a) (xs @ token b @ ys)")
      case True
      with assms(1) Cons have "prefix (token a) xs"
        using prefix_token_before_open [of a xs "b @ '']'' @ ys"] by (simp add: open_next)
      then obtain r where r: "xs = token a @ r" by (auto simp: prefix_def)
      then have "length r < length xs" using ne by simp
      with 1 have "replace_all (token a) v (r @ token b @ ys)
          = replace_all (token a) v r @ token b @ replace_all (token a) v ys"
        by simp
      with ne show ?thesis
        by (simp add: r replace_all_at_token)
    next
      case False
      then have "\<not> prefix (token a) xs" by (auto simp: prefix_def)
      with False Cons 1 show ?thesis by simp
    qed
  qed
qed

lemma resolve_plain:
  "list_all (\<lambda>(k, v). plain k \<and> verbatim v) es \<Longrightarrow> resolvePlaceholders s es = Returns (substitute es s)"
proof (induction es arbitrary: s)
  case Nil
  show ?case by simp
next
  case (Cons e es)
  obtain k v where e: "e = (k, v)" by (cases e)
  with Cons.prems have k: "plain k" and v: "verbatim v"
    and rest: "list_all (\<lambda>(k, v). plain k \<and> verbatim v) es" by simp_all
  have "token k \<noteq> []" by (simp add: token_def)
  then have "replace s (literals (token k)) v = replace_all (token k) v s"
    unfolding replace_def using v by (rule replace_from_literals)
  with k Cons.IH [OF rest] show ?case
    by (simp add: e RegExp_plain)
qed

lemma substitute_unmapped:
  assumes "list_all plain (map fst es)" and "plain b" and "b \<notin> set (map fst es)"
  shows "substitute es (xs @ token b @ ys) = substitute es xs @ token b @ substitute es ys"
  using assms(1,3)
proof (induction es arbitrary: xs ys)
  case Nil
  show ?case by simp
next
  case (Cons e es)
  obtain k v where e: "e = (k, v)" by (cases e)
  with Cons.prems have k: "plain k" and ne: "k \<noteq> b"
    and rest: "list_all plain (map fst es)" "b \<notin> set (map fst es)" by auto
  from k assms(2) ne have "replace_all (token k) v (xs @ token b @ ys)
      = replace_all (token k) v xs @ token b @ replace_all (token k) v ys"
    using plain_no_brackets replace_all_other_token by blast
  with Cons.IH [OF rest] show ?case by (simp add: e)
qed

section \<open>The claims\<close>

text \<open>
  Claim C1. For every content and every mapping, every occurrence of the token \<open>[K]\<close> of
  every key \<open>K\<close> of the mapping is replaced by the mapped value, not only the first.

  The code replaces all occurrences and not only the first (first line below), but what
  it puts there is the expansion of the value as a replacement pattern, and what it
  looks for is the key as a pattern: with the value \<open>$&\<close> each occurrence of \<open>[A]\<close>
  is replaced by itself, and with the key \<open>A+\<close> no occurrence of \<open>[A+]\<close> is replaced.
\<close>

theorem resolve_value_is_pattern:
  "resolvePlaceholders ''[A] and [A] again'' [(''A'', ''X'')] = Returns ''X and X again''
   \<and> resolvePlaceholders ''[A] and [A] again'' [(''A'', ''$&'')] = Returns ''[A] and [A] again''
   \<and> resolvePlaceholders ''[A+] and [A+] again'' [(''A+'', ''X'')] = Returns ''[A+] and [A+] again''"
  by (simp add: regexp_eval)

text \<open>
  Claim C2. Every placeholder token whose key is absent from the mapping is left
  unchanged, and the operation never fails.

  With the key \<open>.\<close> in the mapping the token \<open>[B]\<close>, whose key \<open>B\<close> is not in the
  mapping, is replaced; with the key \<open>)\<close> the constructor of the pattern throws.
\<close>

theorem resolve_unmapped_replaced_or_throws:
  "resolvePlaceholders ''[A] [B]'' [(''A'', ''X'')] = Returns ''X [B]''
   \<and> resolvePlaceholders ''[A] [B]'' [(''.'', ''X'')] = Returns ''X X''
   \<and> resolvePlaceholders ''[A] [B]'' [('')'', ''X'')] = Throws SyntaxError"
  by (simp add: regexp_eval)

text \<open>
  Claim C3. A key \<open>K\<close> matches the literal characters \<open>[K]\<close> only, also when it holds
  \<open>.\<close> or \<open>+\<close>, and a value is inserted as it is, also when it holds \<open>$\<close>.

  The key \<open>A.B\<close> matches \<open>[AxB]\<close>; the key \<open>A+\<close> matches \<open>[AAA]\<close> and not \<open>[A+]\<close>;
  the value \<open>$$5\<close> is inserted as \<open>$5\<close>.
\<close>

theorem resolve_key_is_pattern:
  "resolvePlaceholders ''[AxB] and [A.B]'' [(''A.B'', ''Y'')] = Returns ''Y and Y''
   \<and> resolvePlaceholders ''[A+] and [AAA]'' [(''A+'', ''Y'')] = Returns ''[A+] and Y''
   \<and> resolvePlaceholders ''Total: [PRICE]'' [(''PRICE'', ''$$5'')] = Returns ''Total: $5''"
  by (simp add: regexp_eval)

text \<open>
  Claim C5. Storing an entity \<open>e2\<close> under an id that the library holds with the entity
  \<open>e1\<close> overwrites the entry: the library then returns \<open>e2\<close> for the id, its keys are
  the keys it had, in the same order, and \<open>e1\<close> is no longer among its values.
\<close>

theorem register_overwrites:
  assumes "reachable lib" and "getEntity lib (id' e1) = Some e1" and "id' e2 = id' e1"
  shows "getEntity (register lib e2) (id' e2) = Some e2
       \<and> map_keys (register lib e2) = map_keys lib
       \<and> (e2 \<noteq> e1 \<longrightarrow> e1 \<notin> set (map_values (register lib e2)))"
proof -
  have get: "getEntity (register lib e2) (id' e2) = Some e2"
    by (simp add: getEntity_register)
  from assms(2) have "id' e1 \<in> set (map_keys lib)"
    using map_get_None [of lib "id' e1"] by (simp add: getEntity_def)
  with assms(3) have keys: "map_keys (register lib e2) = map_keys lib"
    by (simp add: register_def map_keys_set_old)
  have gone: "e1 \<notin> set (map_values (register lib e2))" if ne: "e2 \<noteq> e1"
  proof
    assume "e1 \<in> set (map_values (register lib e2))"
    then obtain k where mem: "(k, e1) \<in> set (map_set (id' e2) e2 lib)"
      by (auto simp: map_values_def register_def)
    from reachable_distinct [OF assms(1)] mem
    have "(k, e1) = (id' e2, e2) \<or> ((k, e1) \<in> set lib \<and> fst (k, e1) \<noteq> id' e2)"
      by (rule set_map_set_distinct)
    with ne have old: "(k, e1) \<in> set lib" and k: "k \<noteq> id' e2" by auto
    from reachable_keyed [OF assms(1)] old have "k = id' e1"
      unfolding keyed_by_id_def list_all_iff by auto
    with k assms(3) show False by simp
  qed
  from get keys gone show ?thesis by blast
qed

theorem register_overwrites_witness:
  "getEntity (register entityLibrary confidentiality_v2) ''confidentiality-clause''
     = Some confidentiality_v2
   \<and> map_keys (register entityLibrary confidentiality_v2) = map_keys entityLibrary
   \<and> confidentiality_v1 \<notin> set (map_values (register entityLibrary confidentiality_v2))"
proof -
  have a: "getEntity entityLibrary (id' confidentiality_v1) = Some confidentiality_v1"
    by (simp add: confidentiality_v1_def library_eval)
  have b: "id' confidentiality_v2 = id' confidentiality_v1"
    by (simp add: confidentiality_v2_def)
  have c: "confidentiality_v2 \<noteq> confidentiality_v1"
    by (simp add: confidentiality_v2_def confidentiality_v1_def defaults_def)
  have d: "id' confidentiality_v2 = ''confidentiality-clause''"
    by (simp add: confidentiality_v2_def confidentiality_v1_def defaults_def)
  from register_overwrites [OF reachable_entityLibrary a b] c d show ?thesis by simp
qed

text \<open>
  Claim C6. For an id that is not a key of the library, \<open>getEntity\<close> returns the value
  for "not found" (\<open>undefined\<close>, here \<open>None\<close>); it does not throw.
\<close>

theorem getEntity_absent:
  "i \<notin> set (map_keys lib) \<Longrightarrow> getEntity lib i = None"
  by (simp add: getEntity_def map_get_None)

theorem getEntity_absent_witness:
  "''nonexistent'' \<notin> set (map_keys entityLibrary) \<and> getEntity entityLibrary ''nonexistent'' = None"
proof -
  have h: "''nonexistent'' \<notin> set (map_keys entityLibrary)"
    by (simp add: map_keys_entityLibrary)
  from h getEntity_absent [OF h] show ?thesis by simp
qed

text \<open>
  Claim C7. For every entity \<open>e\<close> the library holds, \<open>getEntity\<close> on its id returns
  \<open>e\<close>; and a call of \<open>insertEntityWithFields\<close>, whatever its argument, leaves the
  library as it was, so that \<open>getEntity\<close> still returns \<open>e\<close> afterwards.
\<close>

theorem stored_entity_unchanged:
  assumes "reachable lib" and "e \<in> set (map_values lib)"
  shows "getEntity lib (id' e) = Some e
       \<and> library (snd (insertEntityWithFields r \<lparr>library = lib, selection = d\<rparr>)) = lib
       \<and> getEntity (library (snd (insertEntityWithFields r \<lparr>library = lib, selection = d\<rparr>))) (id' e)
           = Some e"
  using reachable_member_get [OF assms] by (simp add: library_insertEntityWithFields)

theorem stored_entity_unchanged_witness:
  "getEntity entityLibrary ''governing-law'' = Some governing_law
   \<and> selection (snd (insertEntityWithFields delaware \<lparr>library = entityLibrary, selection = []\<rparr>))
       = ''This Agreement shall be governed by and construed in accordance with the laws of the State of Delaware.''
   \<and> getEntity (library (snd (insertEntityWithFields delaware \<lparr>library = entityLibrary, selection = []\<rparr>)))
        ''governing-law'' = Some governing_law
   \<and> content governing_law
       = ''This Agreement shall be governed by and construed in accordance with the laws of the State of [STATE].''"
proof -
  have mem: "governing_law \<in> set (map_values entityLibrary)"
    by (simp add: governing_law_def library_eval)
  have i: "id' governing_law = ''governing-law''"
    by (simp add: governing_law_def defaults_def)
  have sel: "selection (snd (insertEntityWithFields delaware \<lparr>library = entityLibrary, selection = []\<rparr>))
       = ''This Agreement shall be governed by and construed in accordance with the laws of the State of Delaware.''"
    by (simp add: insertEntityWithFields_def delaware_def library_eval regexp_eval)
  have con: "content governing_law
       = ''This Agreement shall be governed by and construed in accordance with the laws of the State of [STATE].''"
    by (simp add: governing_law_def defaults_def)
  from stored_entity_unchanged [OF reachable_entityLibrary mem, of delaware "[]"] i sel con
  show ?thesis by simp
qed

text \<open>
  Claim C8. \<open>getByCategory c\<close> returns the entities of the library whose category is
  \<open>c\<close>, all of them and no other, each once, in the order in which their ids were first
  stored: an entity stored under a new id comes last, whatever its name.
\<close>

theorem getByCategory_exact:
  "set (getByCategory lib c) = {e \<in> set (map_values lib). category e = c}
   \<and> subseq (getByCategory lib c) (map_values lib)
   \<and> (reachable lib \<longrightarrow> distinct (getByCategory lib c))
   \<and> (id' e \<notin> set (map_keys lib) \<longrightarrow>
        getByCategory (register lib e) c = getByCategory lib c @ (if category e = c then [e] else []))"
  by (simp add: getByCategory_def values_register_new reachable_distinct_values)

theorem getByCategory_exact_witness:
  "map id' (getByCategory (register entityLibrary arbitration) ''legal'')
     = [''confidentiality-clause'', ''governing-law'', ''arbitration'']
   \<and> distinct (getByCategory entityLibrary ''legal'')"
proof -
  have h: "id' arbitration \<notin> set (map_keys entityLibrary)"
    by (simp add: map_keys_entityLibrary arbitration_def)
  note t = getByCategory_exact [of entityLibrary "''legal''" arbitration]
  from t h have "getByCategory (register entityLibrary arbitration) ''legal''
      = getByCategory entityLibrary ''legal'' @ (if category arbitration = ''legal'' then [arbitration] else [])"
    by blast
  then have "map id' (getByCategory (register entityLibrary arbitration) ''legal'')
     = [''confidentiality-clause'', ''governing-law'', ''arbitration'']"
    by (simp add: arbitration_def getByCategory_def library_eval)
  moreover from t reachable_entityLibrary have "distinct (getByCategory entityLibrary ''legal'')"
    by blast
  ultimately show ?thesis by simp
qed

text \<open>
  Claim C9. \<open>search q\<close> returns, in the order of the library, the entities whose name or
  content contains \<open>q\<close> but for the case of letters; so \<open>search\<close> of \<open>q\<close> and of the
  upper-cased \<open>q\<close> return the same; and \<open>search\<close> of the empty string returns every
  entity.

  The second part fails for the sharp s, whose upper-case form is \<open>SS\<close>: the recipe's
  library holds no text with a sharp s and one with \<open>SS\<close>. The strings of this
  evaluation have units below 256 only, so the conversion given as the first argument
  is not used on them: the same holds with any other (\<open>sharp_s_any_conversion\<close>).
\<close>

theorem search_upper_cased_counterexample:
  "toUpperCase (\<lambda>s. s) sharp_s = units ''SS''
   \<and> search (\<lambda>s. s) entityLibrary_recipe sharp_s = []
   \<and> map id' (search (\<lambda>s. s) entityLibrary_recipe (toUpperCase (\<lambda>s. s) sharp_s))
       = [''limitation-liability'']"
  by (simp add: search_eval)

text \<open>
  Claim C9 as amended. For every query \<open>q\<close>, \<open>search q\<close> returns, in the order of the
  library, the entities whose name or content contains \<open>q\<close> but for the case of letters
  (the lower-case form of the name or of the content contains the lower-case form of
  \<open>q\<close>; for a query of units below 256: some part of the name or of the content is
  \<open>q\<close> letter by letter); \<open>search\<close> of \<open>q\<close> and of the upper-cased \<open>q\<close> return the
  same whenever the upper-cased \<open>q\<close> has the lower-case form of \<open>q\<close>, which every
  query of ASCII characters has; and \<open>search\<close> of the empty string returns every
  entity. This holds whatever the platform's conversions \<open>lc\<close> and \<open>uc\<close> are on
  strings with units from 256 on.
\<close>

theorem search_case_insensitive:
  "search lc lib q
     = filter (\<lambda>e. ci_contains lc (units (name e)) q \<or> ci_contains lc (units (content e)) q)
         (map_values lib)
   \<and> (latin1 q \<longrightarrow>
        search lc lib q
          = filter (\<lambda>e. contains_letters (units (name e)) q \<or> contains_letters (units (content e)) q)
              (map_values lib))
   \<and> (toLowerCase lc (toUpperCase uc q) = toLowerCase lc q \<longrightarrow>
        search lc lib (toUpperCase uc q) = search lc lib q)
   \<and> (ascii q \<longrightarrow> search lc lib (toUpperCase uc q) = search lc lib q)
   \<and> search lc lib [] = map_values lib"
proof -
  have a: "search lc lib q
     = filter (\<lambda>e. ci_contains lc (units (name e)) q \<or> ci_contains lc (units (content e)) q)
         (map_values lib)"
    by (simp add: search_def Let_def includes'_sublist ci_contains_def)
  have a': "search lc lib q
     = filter (\<lambda>e. contains_letters (units (name e)) q \<or> contains_letters (units (content e)) q)
         (map_values lib)" if "latin1 q"
    using that by (simp add: a ci_contains_latin1 latin1_units)
  have b: "search lc lib (toUpperCase uc q) = search lc lib q"
    if "toLowerCase lc (toUpperCase uc q) = toLowerCase lc q"
    using that by (rule search_toLowerCase)
  have c: "search lc lib (toUpperCase uc q) = search lc lib q" if "ascii q"
    using toLowerCase_toUpperCase_ascii [OF that] by (rule search_toLowerCase)
  have d: "search lc lib [] = map_values lib"
    by (simp add: search_def toLowerCase_def latin1_empty includes'_empty)
  from a a' b c d show ?thesis by blast
qed

theorem search_case_insensitive_witness:
  "ascii (units ''confidentiality'')
   \<and> latin1 (units ''confidentiality'')
   \<and> toLowerCase (\<lambda>s. s) (toUpperCase (\<lambda>s. s) (units ''confidentiality''))
       = toLowerCase (\<lambda>s. s) (units ''confidentiality'')
   \<and> toUpperCase (\<lambda>s. s) (units ''confidentiality'') = units ''CONFIDENTIALITY''
   \<and> search (\<lambda>s. s) entityLibrary_recipe (units ''CONFIDENTIALITY'')
       = search (\<lambda>s. s) entityLibrary_recipe (units ''confidentiality'')
   \<and> map id' (search (\<lambda>s. s) entityLibrary_recipe (units ''confidentiality''))
       = [''confidentiality-clause'']"
proof -
  have h: "ascii (units ''confidentiality'')"
    by (simp add: ascii_def units_def)
  have l: "latin1 (units ''confidentiality'')"
    by (rule latin1_units)
  have up: "toUpperCase (\<lambda>s. s) (units ''confidentiality'') = units ''CONFIDENTIALITY''"
    by (simp add: search_eval)
  have low: "toLowerCase (\<lambda>s. s) (toUpperCase (\<lambda>s. s) (units ''confidentiality''))
       = toLowerCase (\<lambda>s. s) (units ''confidentiality'')"
    by (simp add: search_eval)
  have found: "map id' (search (\<lambda>s. s) entityLibrary_recipe (units ''confidentiality''))
      = [''confidentiality-clause'']"
    by (simp add: search_eval)
  from search_case_insensitive
    [of "\<lambda>s. s" entityLibrary_recipe "units ''confidentiality''" "\<lambda>s. s"] low
  have "search (\<lambda>s. s) entityLibrary_recipe (toUpperCase (\<lambda>s. s) (units ''confidentiality''))
      = search (\<lambda>s. s) entityLibrary_recipe (units ''confidentiality'')"
    by blast
  with h l up low found show ?thesis by simp
qed

text \<open>
  Claim C10. The keys are applied one after the other, in the order of the entries, each
  to the string that the keys before it produced: the loop on a list of entries followed
  by another is the loop on the second list, started from the result of the first. So a
  token that the value of an earlier key brings in is replaced by a later key, and the
  result depends on the order of the keys.
\<close>

theorem resolve_sequential:
  "resolvePlaceholders s (es @ es') =
     (case resolvePlaceholders s es of
        Returns t \<Rightarrow> resolvePlaceholders t es'
      | Throws err \<Rightarrow> Throws err
      | Unmodelled \<Rightarrow> Unmodelled)
   \<and> resolvePlaceholders ''[A]'' [(''A'', ''[B]''), (''B'', ''Y'')] = Returns ''Y''
   \<and> resolvePlaceholders ''[A]'' [(''B'', ''Y''), (''A'', ''[B]'')] = Returns ''[B]''"
proof -
  have "resolvePlaceholders ''[A]'' [(''A'', ''[B]''), (''B'', ''Y'')] = Returns ''Y''"
    by (simp add: regexp_eval)
  moreover have "resolvePlaceholders ''[A]'' [(''B'', ''Y''), (''A'', ''[B]'')] = Returns ''[B]''"
    by (simp add: regexp_eval)
  ultimately show ?thesis
    using resolvePlaceholders_append [of s es es'] by simp
qed

end
